theory Spec2Isabelle
  imports Main
begin

section \<open>Python primitives used by the script\<close>

text \<open>
  The script \<^verbatim>\<open>main.py\<close> handles labels as Python \<^verbatim>\<open>str\<close> values. A \<^verbatim>\<open>str\<close> is modelled
  as the list of its code points, which are natural numbers below \<open>0x110000\<close>. \<open>lit\<close>
  writes a string literal of the script as such a list. Exceptions are values of
  \<open>error\<close>; a function that may raise returns \<open>error + 'a\<close> with \<open>Inl\<close> for the
  exception.
\<close>

datatype error = ValueError | IndexError | AttributeError | OSError | BadZipFile

type_synonym str = "nat list"

definition ch :: "char \<Rightarrow> nat" where
  "ch c = of_char c"

definition lit :: "string \<Rightarrow> str" where
  "lit s = map ch s"

text \<open>\<^verbatim>\<open>ord(c)\<close> of a one-character string is its code point.\<close>

definition py_ord :: "nat \<Rightarrow> nat" where
  "py_ord c = c"

text \<open>\<^verbatim>\<open>chr(n)\<close> raises \<^verbatim>\<open>ValueError\<close> when \<open>n\<close> is not in \<^verbatim>\<open>range(0x110000)\<close>.\<close>

definition py_chr :: "nat \<Rightarrow> error + nat" where
  "py_chr n = (if n < 0x110000 then Inr n else Inl ValueError)"

definition is_digit :: "nat \<Rightarrow> bool" where
  "is_digit c = (48 \<le> c \<and> c \<le> 57)"

definition digit_val :: "nat \<Rightarrow> nat" where
  "digit_val c = c - 48"

definition digit_char :: "nat \<Rightarrow> nat" where
  "digit_char d = 48 + d"

text \<open>
  The ASCII characters \<^verbatim>\<open>int()\<close> skips around a number: tab, line feed, vertical tab,
  form feed, carriage return, space.
\<close>

definition is_space :: "nat \<Rightarrow> bool" where
  "is_space c = (c \<in> {9, 10, 11, 12, 13, 32})"

text \<open>
  What \<^verbatim>\<open>int()\<close> takes from the Unicode database of the interpreter, which differs
  between Python versions: which code points are white space and which are decimal
  digits, with their values. The database is a parameter of the model; it is consulted
  for code points from 127 on only.
\<close>

record unicode_db =
  uni_space :: "nat \<Rightarrow> bool"
  uni_decimal :: "nat \<Rightarrow> nat option"

text \<open>
  \<^verbatim>\<open>int()\<close> first turns its argument into ASCII. A string of ASCII characters is taken
  as it is. Otherwise every code point below 127 is kept, white space becomes a space,
  a decimal digit becomes the ASCII digit of its value, and any other code point becomes
  a question mark, which no number contains.
\<close>

definition ascii_of :: "unicode_db \<Rightarrow> nat \<Rightarrow> nat" where
  "ascii_of U c =
     (if c < 127 then c
      else if uni_space U c then 32
      else (case uni_decimal U c of
              Some d \<Rightarrow> if d < 10 then 48 + d else 63
            | None \<Rightarrow> 63))"

definition ascii_buffer :: "unicode_db \<Rightarrow> str \<Rightarrow> str" where
  "ascii_buffer U s = (if list_all (\<lambda>c. c < 128) s then s else map (ascii_of U) s)"

text \<open>
  The digit run of \<^verbatim>\<open>int()\<close>: decimal digits, with single underscores allowed between two
  digits. Returns the value read so far and the unread rest.
\<close>

fun int_digits :: "nat \<Rightarrow> str \<Rightarrow> nat \<times> str" where
  "int_digits acc [] = (acc, [])"
| "int_digits acc [c] =
     (if is_digit c then (acc * 10 + digit_val c, []) else (acc, [c]))"
| "int_digits acc (c # d # cs) =
     (if is_digit c then int_digits (acc * 10 + digit_val c) (d # cs)
      else if c = ch CHR ''_'' \<and> is_digit d then int_digits acc (d # cs)
      else (acc, c # d # cs))"

text \<open>
  The number in the ASCII buffer, base 10: optional white space, an optional sign, a
  digit run that starts with a digit, optional white space, end of string. Anything else
  raises \<^verbatim>\<open>ValueError\<close>.
\<close>

definition int_of_ascii :: "str \<Rightarrow> error + int" where
  "int_of_ascii s =
     (let s1 = dropWhile is_space s;
          neg = (s1 \<noteq> [] \<and> hd s1 = ch CHR ''-'');
          s2 = (if s1 \<noteq> [] \<and> (hd s1 = ch CHR ''-'' \<or> hd s1 = ch CHR ''+'') then tl s1 else s1)
      in if s2 = [] \<or> \<not> is_digit (hd s2) then Inl ValueError
         else (case int_digits 0 s2 of (n, rest) \<Rightarrow>
                 if dropWhile is_space rest = []
                 then Inr (if neg then - int n else int n)
                 else Inl ValueError))"

text \<open>\<^verbatim>\<open>int(s)\<close> for a string \<open>s\<close>.\<close>

definition py_int :: "unicode_db \<Rightarrow> str \<Rightarrow> error + int" where
  "py_int U s = int_of_ascii (ascii_buffer U s)"

text \<open>The decimal digits of a natural number, most significant first.\<close>

fun dec_digits :: "nat \<Rightarrow> str" where
  "dec_digits n =
     (if n < 10 then [digit_char n] else dec_digits (n div 10) @ [digit_char (n mod 10)])"

declare dec_digits.simps [simp del]

text \<open>
  The format \<^verbatim>\<open>f"{number:03d}"\<close>: sign-aware zero padding to a minimal width of three
  characters, the sign counting towards the width.
\<close>

definition format_03d :: "int \<Rightarrow> str" where
  "format_03d n =
     (if n < 0
      then ch CHR ''-'' # replicate (2 - length (dec_digits (nat (- n)))) (ch CHR ''0'')
             @ dec_digits (nat (- n))
      else replicate (3 - length (dec_digits (nat n))) (ch CHR ''0'') @ dec_digits (nat n))"

section \<open>The identifier sequencer: \<^verbatim>\<open>next_id\<close>\<close>

text \<open>
  The \<^verbatim>\<open>while i >= 0 ... else\<close> loop of \<^verbatim>\<open>next_id\<close> over \<^verbatim>\<open>prefix_list\<close>. The loop is entered
  with \<open>i = len(prefix_list) - 1\<close>, so every index it reads is within the list. The
  \<^verbatim>\<open>else\<close> branch of the loop runs when the condition fails, that is when no \<^verbatim>\<open>break\<close>
  happened. The call of \<^verbatim>\<open>chr\<close> in line 97 can raise.
\<close>

function inc_loop :: "str \<Rightarrow> int \<Rightarrow> error + str" where
  "inc_loop prefix_list i =
     (if i \<ge> 0 then
        (if prefix_list ! nat i \<noteq> ch CHR ''Z''
         then (case py_chr (py_ord (prefix_list ! nat i) + 1) of
                 Inl e \<Rightarrow> Inl e
               | Inr c \<Rightarrow> Inr (prefix_list[nat i := c]))
         else inc_loop (prefix_list[nat i := ch CHR ''A'']) (i - 1))
      else Inr (ch CHR ''A'' # prefix_list))"
  by pat_completeness auto
termination
  by (relation "measure (\<lambda>(p, i). nat (i + 1))") auto

declare inc_loop.simps [simp del]

text \<open>
  \<^verbatim>\<open>next_id(last)\<close>. \<^verbatim>\<open>not last\<close> holds for \<^verbatim>\<open>None\<close> and for the empty string.
  \<^verbatim>\<open>last[:-3]\<close> is the string without its last three characters (empty when there are
  at most three), \<^verbatim>\<open>last[-3:]\<close> its last three characters (the whole string when shorter).
  The parameter \<^verbatim>\<open>last\<close> is written \<open>last'\<close>, and \<^verbatim>\<open>prefix\<close> is written \<open>pre\<close>.
\<close>

definition next_id :: "unicode_db \<Rightarrow> str option \<Rightarrow> error + str" where
  "next_id U last' =
     (case last' of
        None \<Rightarrow> Inr (lit ''A001'')
      | Some l \<Rightarrow>
          if l = [] then Inr (lit ''A001'')
          else
            (let pre = take (length l - 3) l in
             case py_int U (drop (length l - 3) l) of
               Inl e \<Rightarrow> Inl e
             | Inr number0 \<Rightarrow>
                 (let number = number0 + 1 in
                  if number > 999
                  then (case (if pre = [] then Inr (lit ''A'')
                              else inc_loop pre (int (length pre) - 1)) of
                          Inl e \<Rightarrow> Inl e
                        | Inr pre' \<Rightarrow> Inr (pre' @ format_03d 1))
                  else Inr (pre @ format_03d number))))"

text \<open>
  The Unicode database of Python 3.11 (Unicode 14.0), from code point 127 on: the white
  space code points, and the decimal digits, which come in runs of ten from the code
  points listed in \<open>py311_digit_zeros\<close>.
\<close>

definition py311_spaces :: "nat list" where
  "py311_spaces = [133, 160, 5760, 8192, 8193, 8194, 8195, 8196, 8197, 8198, 8199, 8200,
     8201, 8202, 8232, 8233, 8239, 8287, 12288]"

definition py311_digit_zeros :: "nat list" where
  "py311_digit_zeros = [1632, 1776, 1984, 2406, 2534, 2662, 2790, 2918, 3046, 3174, 3302,
     3430, 3558, 3664, 3792, 3872, 4160, 4240, 6112, 6160, 6470, 6608, 6784, 6800, 6992,
     7088, 7232, 7248, 42528, 43216, 43264, 43472, 43504, 43600, 44016, 65296, 66720,
     68912, 69734, 69872, 69942, 70096, 70384, 70736, 70864, 71248, 71360, 71472, 71904,
     72016, 72784, 73040, 73120, 92768, 92864, 93008, 120782, 120792, 120802, 120812,
     120822, 123200, 123632, 125264, 130032]"

definition py311_db :: unicode_db where
  "py311_db =
     \<lparr>uni_space = (\<lambda>c. c \<in> set py311_spaces),
      uni_decimal = (\<lambda>c. case filter (\<lambda>z. z \<le> c \<and> c < z + 10) py311_digit_zeros of
                            [] \<Rightarrow> None
                          | z # _ \<Rightarrow> Some (c - z))\<rparr>"

section \<open>Labels: well-formedness, base-26 prefixes, ordering\<close>

text \<open>
  The vocabulary of the specification. A label is an alphabetic prefix (possibly empty,
  letters A to Z) followed by exactly three decimal digits that denote a number from 1
  to 999.
\<close>

definition is_upper :: "nat \<Rightarrow> bool" where
  "is_upper c = (65 \<le> c \<and> c \<le> 90)"

definition label_prefix :: "str \<Rightarrow> str" where
  "label_prefix l = take (length l - 3) l"

definition label_suffix :: "str \<Rightarrow> str" where
  "label_suffix l = drop (length l - 3) l"

definition decimal_value :: "str \<Rightarrow> nat" where
  "decimal_value ds = foldl (\<lambda>v c. 10 * v + digit_val c) 0 ds"

definition label_number :: "str \<Rightarrow> nat" where
  "label_number l = decimal_value (label_suffix l)"

definition well_formed :: "str \<Rightarrow> bool" where
  "well_formed l =
     (3 \<le> length l \<and> list_all is_upper (label_prefix l) \<and>
      list_all is_digit (label_suffix l) \<and> 1 \<le> label_number l)"

definition three_digits :: "nat \<Rightarrow> str" where
  "three_digits n = [digit_char (n div 100), digit_char (n div 10 mod 10), digit_char (n mod 10)]"

text \<open>
  The prefix increment in the words of the specification: a carry-propagating counter over
  the letters, starting at the rightmost letter; Z rolls over to A and carries to the
  left; a carry past the leftmost letter prepends a new leading A. \<open>carry_increment\<close>
  works on the reversed prefix (rightmost letter first).
\<close>

fun carry_increment :: "str \<Rightarrow> str" where
  "carry_increment [] = [ch CHR ''A'']"
| "carry_increment (c # cs) =
     (if c = ch CHR ''Z'' then ch CHR ''A'' # carry_increment cs
      else (c + 1) # cs)"

definition base26_increment :: "str \<Rightarrow> str" where
  "base26_increment p = rev (carry_increment (rev p))"

text \<open>
  The prefixes on which the increment leaves the code points: the rightmost character
  other than Z is the last code point \<open>0x10FFFF\<close> (or beyond, which no \<^verbatim>\<open>str\<close> holds).
  \<open>carry_overflows\<close> works on the reversed prefix.
\<close>

fun carry_overflows :: "str \<Rightarrow> bool" where
  "carry_overflows [] = False"
| "carry_overflows (c # cs) =
     (if c = ch CHR ''Z'' then carry_overflows cs else 0x10FFFF \<le> c)"

definition prefix_overflows :: "str \<Rightarrow> bool" where
  "prefix_overflows p = carry_overflows (rev p)"

text \<open>
  The number a prefix denotes: bijective base 26 with A = 1, ..., Z = 26, most
  significant letter first; the empty prefix denotes 0.
\<close>

definition letter_value :: "nat \<Rightarrow> nat" where
  "letter_value c = c - 64"

definition base26_value :: "str \<Rightarrow> nat" where
  "base26_value p = foldl (\<lambda>v c. 26 * v + letter_value c) 0 p"

text \<open>
  The ordering of labels of the specification: prefixes are compared first by length,
  then lexicographically (by code point); ties are broken by the numeric suffix.
\<close>

fun lex_less :: "str \<Rightarrow> str \<Rightarrow> bool" where
  "lex_less [] [] = False"
| "lex_less [] (y # ys) = True"
| "lex_less (x # xs) [] = False"
| "lex_less (x # xs) (y # ys) = (x < y \<or> (x = y \<and> lex_less xs ys))"

definition label_less :: "str \<Rightarrow> str \<Rightarrow> bool" where
  "label_less a b =
     (length (label_prefix a) < length (label_prefix b) \<or>
      (length (label_prefix a) = length (label_prefix b) \<and>
       (lex_less (label_prefix a) (label_prefix b) \<or>
        (label_prefix a = label_prefix b \<and> label_number a < label_number b))))"

text \<open>
  The labels produced by iterating \<^verbatim>\<open>next_id\<close> from \<^verbatim>\<open>None\<close>: \<open>nth_label U 0\<close> is
  \<^verbatim>\<open>next_id(None)\<close>, and each further label is \<^verbatim>\<open>next_id\<close> of the one before.
\<close>

primrec nth_label :: "unicode_db \<Rightarrow> nat \<Rightarrow> error + str" where
  "nth_label U 0 = next_id U None"
| "nth_label U (Suc n) =
     (case nth_label U n of Inl e \<Rightarrow> Inl e | Inr l \<Rightarrow> next_id U (Some l))"

text \<open>
  The characters that can occur in a string that \<^verbatim>\<open>int()\<close> accepts: decimal digits,
  white space, the signs and the underscore; \<open>ascii_int_char\<close> for the ASCII buffer,
  \<open>int_char\<close> for the string itself.
\<close>

definition ascii_int_char :: "nat \<Rightarrow> bool" where
  "ascii_int_char c = (is_digit c \<or> is_space c \<or> c = 43 \<or> c = 45 \<or> c = 95)"

definition int_char :: "unicode_db \<Rightarrow> nat \<Rightarrow> bool" where
  "int_char U c =
     (if c < 127 then ascii_int_char c
      else uni_space U c \<or> (case uni_decimal U c of Some d \<Rightarrow> d < 10 | None \<Rightarrow> False))"

section \<open>The spreadsheet document\<close>

text \<open>
  The script reads the document through \<^verbatim>\<open>getElementsByType\<close> only, so a document is
  modelled by what these calls return: a document is the list of its tables, a table the
  list of its rows, a row the list of its cells, a cell the list of its paragraphs, and a
  paragraph the list of its child nodes. A child node is a text node, which has the
  attribute \<^verbatim>\<open>data\<close>, or an element, which has not.
\<close>

datatype node = Text str | Element

type_synonym para = "node list"
type_synonym cell = "para list"
type_synonym row = "cell list"
type_synonym table = "row list"
type_synonym document = "table list"

text \<open>
  \<^verbatim>\<open>P(text=t)\<close>: a paragraph whose only child is the text node of \<open>t\<close>; the library adds
  no text node for the empty string.
\<close>

definition P :: "str \<Rightarrow> para" where
  "P t = (if t = [] then [] else [Text t])"

text \<open>The header row that lines 59 to 64 build: one cell with one paragraph per title.\<close>

definition header :: row where
  "header = map (\<lambda>h. [P (lit h)]) [''ID'', ''Subreddit'', ''Title'', ''URL'']"

text \<open>\<^verbatim>\<open>xs[0]\<close> and \<^verbatim>\<open>xs[-1]\<close> on a Python list raise \<^verbatim>\<open>IndexError\<close> on the empty list.\<close>

definition py_first :: "'a list \<Rightarrow> error + 'a" where
  "py_first xs = (case xs of [] \<Rightarrow> Inl IndexError | x # _ \<Rightarrow> Inr x)"

definition py_last :: "'a list \<Rightarrow> error + 'a" where
  "py_last xs = (if xs = [] then Inl IndexError else Inr (last xs))"

text \<open>
  \<^verbatim>\<open>p.firstChild\<close> is \<^verbatim>\<open>None\<close> for a paragraph without children; \<^verbatim>\<open>.data\<close> raises
  \<^verbatim>\<open>AttributeError\<close> on \<^verbatim>\<open>None\<close> and on an element.
\<close>

definition firstChild :: "para \<Rightarrow> node option" where
  "firstChild p = (case p of [] \<Rightarrow> None | n # _ \<Rightarrow> Some n)"

definition data :: "node option \<Rightarrow> error + str" where
  "data n = (case n of Some (Text d) \<Rightarrow> Inr d | _ \<Rightarrow> Inl AttributeError)"

text \<open>The body of the \<^verbatim>\<open>try\<close> block, lines 46 to 48.\<close>

definition read_last_id :: "table \<Rightarrow> error + str" where
  "read_last_id t =
     (case py_last t of
        Inl e \<Rightarrow> Inl e
      | Inr last_row \<Rightarrow>
          (case py_first last_row of
             Inl e \<Rightarrow> Inl e
           | Inr last_id_cell \<Rightarrow>
               (case py_first last_id_cell of
                  Inl e \<Rightarrow> Inl e
                | Inr p \<Rightarrow> data (firstChild p))))"

text \<open>The \<^verbatim>\<open>try\<close> with its handler \<^verbatim>\<open>except Exception: last_id = None\<close>, lines 44 to 51.\<close>

definition recover :: "table \<Rightarrow> str option" where
  "recover t = (case read_last_id t of Inl e \<Rightarrow> None | Inr d \<Rightarrow> Some d)"

section \<open>The append log: start and main loop\<close>

text \<open>
  The file \<^verbatim>\<open>reddit_output.ods\<close>: it does not exist, or \<^verbatim>\<open>load\<close> returns a document for
  it, or it exists and \<^verbatim>\<open>load\<close> raises on it (for a file that is not a complete archive,
  \<^verbatim>\<open>BadZipFile\<close>).
\<close>

datatype disk = No_file | File document | Damaged

text \<open>
  The variables of the script after the start: \<^verbatim>\<open>table\<close> (the first table of \<^verbatim>\<open>doc\<close>),
  the other tables of \<^verbatim>\<open>doc\<close>, \<^verbatim>\<open>last_id\<close> (the label of the next row) and \<^verbatim>\<open>seen_posts\<close>.
\<close>

record state =
  table :: table
  other_tables :: "table list"
  last_id :: str
  seen_posts :: "str set"

text \<open>
  Lines 40 to 66 and line 109. The call of \<^verbatim>\<open>load\<close> in line 42, taking the first table
  in line 43, and the call of \<^verbatim>\<open>next_id\<close> in line 109 are outside the \<^verbatim>\<open>try\<close>: an
  exception there ends the process.
\<close>

definition startup :: "unicode_db \<Rightarrow> disk \<Rightarrow> error + state" where
  "startup U file =
     (case file of
        No_file \<Rightarrow>
          (case next_id U None of
             Inl e \<Rightarrow> Inl e
           | Inr l \<Rightarrow> Inr \<lparr>table = [header], other_tables = [], last_id = l, seen_posts = {}\<rparr>)
      | Damaged \<Rightarrow> Inl BadZipFile
      | File doc \<Rightarrow>
          (case py_first doc of
             Inl e \<Rightarrow> Inl e
           | Inr t \<Rightarrow>
               (case next_id U (recover t) of
                  Inl e \<Rightarrow> Inl e
                | Inr l \<Rightarrow>
                    Inr \<lparr>table = t, other_tables = tl doc, last_id = l, seen_posts = {}\<rparr>)))"

text \<open>The label the process holds for the next row after a start, or the exception that ends the start.\<close>

definition pending_after_startup :: "unicode_db \<Rightarrow> disk \<Rightarrow> error + str" where
  "pending_after_startup U file = map_sum (\<lambda>e. e) last_id (startup U file)"

text \<open>A submission of the stream: \<^verbatim>\<open>post.id\<close>, \<^verbatim>\<open>post.subreddit.display_name\<close>, \<^verbatim>\<open>post.title\<close>.\<close>

record post =
  post_id :: str
  display_name :: str
  title :: str

text \<open>The row of lines 129 to 149.\<close>

definition new_row :: "str \<Rightarrow> post \<Rightarrow> row" where
  "new_row l p =
     [[P l], [P (display_name p)], [P (title p)], [P (lit ''https://redd.it/'' @ post_id p)]]"

text \<open>
  What \<^verbatim>\<open>doc.save(ODS_FILE)\<close> in line 155 does is decided outside the script. The library
  opens the file for writing, which empties it, and then writes the archive. \<open>Saved\<close>: the
  save succeeds, and \<^verbatim>\<open>load\<close> returns the saved document for the new file; this is how
  the library reads back texts of letters, digits and other printable characters (a
  carriage return in a text is read back as a line feed, which \<open>Saved\<close> does not
  follow). \<open>Fails e file'\<close>: the save raises \<open>e\<close> and leaves \<open>file'\<close> behind, which is the
  file as it was when the save failed before it opened the file, and a damaged file when
  it failed while writing.
\<close>

datatype save = Saved | Fails error disk

text \<open>
  One iteration of the main loop, lines 124 to 161, with the outcome of the save. Only
  \<^verbatim>\<open>KeyboardInterrupt\<close> is caught around the loop, so an exception ends the process: the
  result is the exception and the file.
\<close>

definition process_post ::
  "unicode_db \<Rightarrow> post \<Rightarrow> save \<Rightarrow> state \<times> disk \<Rightarrow> (error + state) \<times> disk" where
  "process_post U p outcome sd =
     (case sd of (s, file) \<Rightarrow>
        if post_id p \<in> seen_posts s then (Inr s, file)
        else
          (let s1 = s\<lparr>seen_posts := insert (post_id p) (seen_posts s)\<rparr>;
               s2 = s1\<lparr>table := table s1 @ [new_row (last_id s1) p]\<rparr>
           in case outcome of
                Fails e file' \<Rightarrow> (Inl e, file')
              | Saved \<Rightarrow>
                  (let file' = File (table s2 # other_tables s2)
                   in case next_id U (Some (last_id s2)) of
                        Inl e \<Rightarrow> (Inl e, file')
                      | Inr l \<Rightarrow> (Inr (s2\<lparr>last_id := l\<rparr>), file'))))"

text \<open>The loop over the submissions delivered until the process is stopped.\<close>

fun run :: "unicode_db \<Rightarrow> (post \<times> save) list \<Rightarrow> state \<times> disk \<Rightarrow> (error + state) \<times> disk" where
  "run U [] sd = (Inr (fst sd), snd sd)"
| "run U ((p, outcome) # evs) sd =
     (case process_post U p outcome sd of
        (Inl e, file) \<Rightarrow> (Inl e, file)
      | (Inr s, file) \<Rightarrow> run U evs (s, file))"

text \<open>
  A concrete run, used to instantiate the statements below: the start without a file
  gives \<open>state0\<close>; the submission \<open>post1\<close> is saved and gives \<open>state1\<close>; \<open>post2\<close> is
  another submission, and \<open>post1_again\<close> has the key of \<open>post1\<close>.
\<close>

definition post1 :: post where
  "post1 = \<lparr>post_id = lit ''k1'', display_name = lit ''a'', title = lit ''T1''\<rparr>"

definition post2 :: post where
  "post2 = \<lparr>post_id = lit ''k2'', display_name = lit ''b'', title = lit ''T2''\<rparr>"

definition post1_again :: post where
  "post1_again = \<lparr>post_id = lit ''k1'', display_name = lit ''a'', title = lit ''T1 (edited)''\<rparr>"

definition state0 :: state where
  "state0 = \<lparr>table = [header], other_tables = [], last_id = lit ''A001'', seen_posts = {}\<rparr>"

definition state1 :: state where
  "state1 = \<lparr>table = [header, new_row (lit ''A001'') post1], other_tables = [],
              last_id = lit ''A002'', seen_posts = {lit ''k1''}\<rparr>"

section \<open>Characters, digits and the number format\<close>

lemma ch_values [simp]:
  "ch CHR ''A'' = 65" "ch CHR ''Z'' = 90" "ch CHR ''0'' = 48" "ch CHR ''_'' = 95"
  "ch CHR ''-'' = 45" "ch CHR ''+'' = 43"
  by (simp_all add: ch_def)

lemma is_digit_not_special:
  "is_digit c \<Longrightarrow> \<not> is_space c \<and> c \<noteq> 45 \<and> c \<noteq> 43 \<and> c \<noteq> 95 \<and> c < 128"
  by (auto simp: is_digit_def is_space_def)

lemma digit_val_lt: "is_digit c \<Longrightarrow> digit_val c < 10"
  by (auto simp: is_digit_def digit_val_def)

lemma digit_val_char: "d < 10 \<Longrightarrow> digit_val (digit_char d) = d"
  by (simp add: digit_val_def digit_char_def)

lemma is_digit_char: "d < 10 \<Longrightarrow> is_digit (digit_char d)"
  by (simp add: is_digit_def digit_char_def)

lemma int_of_ascii_three_digits:
  assumes "is_digit a" "is_digit b" "is_digit c"
  shows "int_of_ascii [a, b, c] = Inr (int (100 * digit_val a + 10 * digit_val b + digit_val c))"
  using assms is_digit_not_special[of a] is_digit_not_special[of b] is_digit_not_special[of c]
  by (simp add: int_of_ascii_def)

lemma py_int_three_digits:
  assumes "is_digit a" "is_digit b" "is_digit c"
  shows "py_int U [a, b, c] = Inr (int (100 * digit_val a + 10 * digit_val b + digit_val c))"
  using assms is_digit_not_special[of a] is_digit_not_special[of b] is_digit_not_special[of c]
  by (simp add: py_int_def ascii_buffer_def int_of_ascii_three_digits)

lemma replicate_2: "replicate 2 x = [x, x]"
  by (simp add: numeral_2_eq_2)

lemma dec_digits_1: "n < 10 \<Longrightarrow> dec_digits n = [digit_char n]"
  by (simp add: dec_digits.simps[of n])

lemma dec_digits_2:
  "10 \<le> n \<Longrightarrow> n < 100 \<Longrightarrow> dec_digits n = [digit_char (n div 10), digit_char (n mod 10)]"
  by (simp add: dec_digits.simps[of n] dec_digits_1)

lemma dec_digits_3:
  assumes "100 \<le> n" "n < 1000"
  shows "dec_digits n = [digit_char (n div 100), digit_char (n div 10 mod 10), digit_char (n mod 10)]"
proof -
  have "10 \<le> n div 10" "n div 10 < 100" using assms by auto
  then have "dec_digits (n div 10) = [digit_char (n div 10 div 10), digit_char (n div 10 mod 10)]"
    by (rule dec_digits_2)
  moreover have "n div 10 div 10 = n div 100" by (simp add: div_mult2_eq)
  ultimately show ?thesis using assms by (simp add: dec_digits.simps[of n])
qed

lemma format_03d_three:
  assumes "n < 1000"
  shows "format_03d (int n) = three_digits n"
proof -
  consider "n < 10" | "10 \<le> n" "n < 100" | "100 \<le> n"
    by linarith
  then show ?thesis
  proof cases
    case 1
    then show ?thesis
      by (simp add: format_03d_def three_digits_def dec_digits_1 digit_char_def replicate_2)
  next
    case 2
    then show ?thesis
      by (simp add: format_03d_def three_digits_def dec_digits_2 digit_char_def)
  next
    case 3
    with assms show ?thesis
      by (simp add: format_03d_def three_digits_def dec_digits_3)
  qed
qed

lemma three_digits_1: "three_digits 1 = lit ''001''"
  by (simp add: three_digits_def digit_char_def lit_def ch_def)

lemma format_03d_1: "format_03d 1 = lit ''001''"
proof -
  have "format_03d (int 1) = three_digits 1" by (rule format_03d_three) simp
  then show ?thesis by (simp only: three_digits_1 of_nat_1)
qed

section \<open>The prefix loop is the carry increment\<close>

lemma inc_loop_carry:
  "inc_loop (xs @ ys) (int (length xs) - 1) =
     (if carry_overflows (rev xs) then Inl ValueError
      else Inr (rev (carry_increment (rev xs)) @ ys))"
proof (induction xs arbitrary: ys rule: rev_induct)
  case Nil
  show ?case by (simp add: inc_loop.simps[of ys "-1"])
next
  case (snoc c xs)
  show ?case
  proof (cases "c = 90")
    case True
    have "inc_loop ((xs @ [c]) @ ys) (int (length (xs @ [c])) - 1)
          = inc_loop (xs @ 65 # ys) (int (length xs) - 1)"
      using True by (subst inc_loop.simps) (simp add: nth_append list_update_append)
    also have "\<dots> = (if carry_overflows (rev xs) then Inl ValueError
                       else Inr (rev (carry_increment (rev xs)) @ 65 # ys))"
      by (rule snoc.IH)
    finally show ?thesis using True by simp
  next
    case False
    then show ?thesis
      by (subst inc_loop.simps)
         (simp add: nth_append list_update_append py_chr_def py_ord_def)
  qed
qed

lemma inc_loop_base26:
  "inc_loop p (int (length p) - 1) =
     (if prefix_overflows p then Inl ValueError else Inr (base26_increment p))"
  using inc_loop_carry[of p "[]"] by (simp add: base26_increment_def prefix_overflows_def)

lemma upper_no_overflow: "list_all is_upper p \<Longrightarrow> \<not> prefix_overflows p"
  unfolding prefix_overflows_def
  by (induction p rule: rev_induct) (auto simp: is_upper_def)

section \<open>\<^verbatim>\<open>next_id\<close> on a non-empty string\<close>

lemma base26_increment_Nil: "base26_increment [] = lit ''A''"
  by (simp add: base26_increment_def lit_def)

lemma next_id_nonempty:
  assumes "s \<noteq> []"
  shows "next_id U (Some s) =
     (case py_int U (label_suffix s) of
        Inl e \<Rightarrow> Inl e
      | Inr k \<Rightarrow>
          if 999 \<le> k
          then (if prefix_overflows (label_prefix s) then Inl ValueError
                else Inr (base26_increment (label_prefix s) @ lit ''001''))
          else Inr (label_prefix s @ format_03d (k + 1)))"
proof (cases "py_int U (label_suffix s)")
  case (Inl e)
  with assms show ?thesis by (simp add: next_id_def label_suffix_def)
next
  case (Inr k)
  have ovf: "\<not> prefix_overflows []" by (simp add: prefix_overflows_def)
  from Inr assms show ?thesis
    unfolding next_id_def label_suffix_def label_prefix_def Let_def
    by (auto simp: format_03d_1 inc_loop_base26 base26_increment_Nil ovf
        simp flip: label_prefix_def)
qed

lemma label_parts [simp]:
  "label_prefix (p @ [a, b, c]) = p" "label_suffix (p @ [a, b, c]) = [a, b, c]"
  "label_number (p @ [a, b, c]) = 100 * digit_val a + 10 * digit_val b + digit_val c"
  by (simp_all add: label_prefix_def label_suffix_def label_number_def decimal_value_def)

lemma next_id_digits:
  assumes "is_digit a" "is_digit b" "is_digit c"
    and n: "n = 100 * digit_val a + 10 * digit_val b + digit_val c"
    and p: "\<not> prefix_overflows p"
  shows "next_id U (Some (p @ [a, b, c])) =
           Inr (if n = 999 then base26_increment p @ lit ''001'' else p @ three_digits (n + 1))"
proof -
  have le: "n \<le> 999"
    using digit_val_lt[OF assms(1)] digit_val_lt[OF assms(2)] digit_val_lt[OF assms(3)] n
    by linarith
  have pi: "py_int U [a, b, c] = Inr (int n)"
    using py_int_three_digits[OF assms(1-3)] n by simp
  have ne: "p @ [a, b, c] \<noteq> []" by simp
  show ?thesis
  proof (cases "n = 999")
    case True
    with p show ?thesis by (simp add: next_id_nonempty[OF ne] pi)
  next
    case False
    with le have lt: "n + 1 < 1000" by simp
    have "format_03d (int n + 1) = three_digits (n + 1)"
      using format_03d_three[OF lt] by (simp add: add.commute)
    with False le show ?thesis by (simp add: next_id_nonempty[OF ne] pi)
  qed
qed

lemma well_formed_decomp:
  assumes "well_formed l"
  obtains p a b c where "l = p @ [a, b, c]" "list_all is_upper p"
    "is_digit a" "is_digit b" "is_digit c"
    "1 \<le> 100 * digit_val a + 10 * digit_val b + digit_val c"
proof -
  from assms have len: "3 \<le> length l" by (simp add: well_formed_def)
  define p where "p = take (length l - 3) l"
  define s where "s = drop (length l - 3) l"
  have l: "l = p @ s" by (simp add: p_def s_def)
  have "length s = 3" using len by (simp add: s_def)
  then obtain a b c where s: "s = [a, b, c]"
    by (auto simp: length_Suc_conv eval_nat_numeral)
  from assms have "list_all is_upper p" "list_all is_digit s" "1 \<le> decimal_value s"
    by (simp_all add: well_formed_def label_prefix_def label_suffix_def label_number_def p_def s_def)
  with s l that show ?thesis by (simp add: decimal_value_def)
qed

section \<open>The carry increment on letters\<close>

lemma base26_increment_snoc:
  "base26_increment (xs @ [c]) =
     (if c = 90 then base26_increment xs @ [65] else xs @ [c + 1])"
  by (simp add: base26_increment_def)

lemma upper_succ_upper: "is_upper c \<Longrightarrow> c \<noteq> 90 \<Longrightarrow> is_upper (c + 1)"
  by (auto simp: is_upper_def)

lemma is_upper_A: "is_upper 65"
  by (simp add: is_upper_def)

lemma base26_increment_upper:
  "list_all is_upper p \<Longrightarrow> list_all is_upper (base26_increment p)"
proof (induction p rule: rev_induct)
  case Nil
  show ?case by (simp add: base26_increment_def is_upper_A)
next
  case (snoc c xs)
  show ?case
  proof (cases "c = 90")
    case True
    with snoc show ?thesis by (simp add: base26_increment_snoc is_upper_A)
  next
    case False
    with snoc.prems have "is_upper (c + 1)"
      by (intro upper_succ_upper) simp_all
    with False snoc.prems show ?thesis by (simp add: base26_increment_snoc)
  qed
qed

lemma base26_value_snoc: "base26_value (xs @ [c]) = 26 * base26_value xs + letter_value c"
  by (simp add: base26_value_def)

lemma base26_increment_value:
  "list_all is_upper p \<Longrightarrow> base26_value (base26_increment p) = base26_value p + 1"
proof (induction p rule: rev_induct)
  case Nil
  show ?case by (simp add: base26_increment_def base26_value_def letter_value_def)
next
  case (snoc c xs)
  show ?case
  proof (cases "c = 90")
    case True
    with snoc show ?thesis
      by (simp add: base26_increment_snoc base26_value_snoc letter_value_def)
  next
    case False
    with snoc.prems have "65 \<le> c" by (simp add: is_upper_def)
    with False show ?thesis
      by (simp add: base26_increment_snoc base26_value_snoc letter_value_def)
  qed
qed

section \<open>Three-digit suffixes and well-formed labels\<close>

lemma three_digits_Suc0: "three_digits (Suc 0) = lit ''001''"
  using three_digits_1 by simp

lemma length_three_digits [simp]: "length (three_digits m) = 3"
  by (simp add: three_digits_def)

lemma three_digits_prefix [simp]: "label_prefix (p @ three_digits m) = p"
  by (simp add: label_prefix_def)

lemma three_digits_suffix [simp]: "label_suffix (p @ three_digits m) = three_digits m"
  by (simp add: label_suffix_def)

lemma three_digits_is_digit:
  assumes "m < 1000"
  shows "list_all is_digit (three_digits m)"
proof -
  from assms have "m div 100 < 10" "m div 10 mod 10 < 10" "m mod 10 < 10" by auto
  then show ?thesis by (simp add: three_digits_def is_digit_char)
qed

lemma three_digits_value:
  assumes "m < 1000"
  shows "decimal_value (three_digits m) = m"
proof -
  from assms have d: "m div 100 < 10" "m div 10 mod 10 < 10" "m mod 10 < 10" by auto
  have "decimal_value (three_digits m) = 100 * (m div 100) + 10 * (m div 10 mod 10) + m mod 10"
    using d by (simp add: decimal_value_def three_digits_def digit_val_char)
  also have "\<dots> = m"
  proof -
    have "m div 100 = m div 10 div 10"
      using div_mult2_eq[of m 10 10] by simp
    moreover have "m div 10 = 10 * (m div 10 div 10) + m div 10 mod 10" by simp
    moreover have "m = 10 * (m div 10) + m mod 10" by simp
    ultimately show ?thesis by linarith
  qed
  finally show ?thesis .
qed

lemma three_digits_number: "m < 1000 \<Longrightarrow> label_number (p @ three_digits m) = m"
  by (simp add: label_number_def three_digits_value)

lemma well_formed_three:
  "list_all is_upper p \<Longrightarrow> 1 \<le> m \<Longrightarrow> m < 1000 \<Longrightarrow> well_formed (p @ three_digits m)"
  by (simp add: well_formed_def three_digits_is_digit three_digits_number)

lemma next_id_well_formed_cases:
  assumes "well_formed l"
  obtains p n where "list_all is_upper p" "1 \<le> n" "n < 999"
      "label_prefix l = p" "label_number l = n"
      "next_id U (Some l) = Inr (p @ three_digits (n + 1))"
    | p where "list_all is_upper p" "label_prefix l = p" "label_number l = 999"
      "next_id U (Some l) = Inr (base26_increment p @ three_digits 1)"
proof -
  from assms obtain p a b c where l: "l = p @ [a, b, c]" and p: "list_all is_upper p"
    and d: "is_digit a" "is_digit b" "is_digit c"
    and n1: "1 \<le> 100 * digit_val a + 10 * digit_val b + digit_val c"
    by (rule well_formed_decomp)
  define n where "n = 100 * digit_val a + 10 * digit_val b + digit_val c"
  have le: "n \<le> 999"
    using digit_val_lt[OF d(1)] digit_val_lt[OF d(2)] digit_val_lt[OF d(3)] n_def by linarith
  have nx: "next_id U (Some l) =
      Inr (if n = 999 then base26_increment p @ lit ''001'' else p @ three_digits (n + 1))"
    unfolding l using d n_def upper_no_overflow[OF p] by (rule next_id_digits)
  show thesis
  proof (cases "n = 999")
    case True
    with nx p l n_def that(2)[of p] show thesis by (simp add: three_digits_Suc0)
  next
    case False
    with le have "n < 999" by simp
    with nx p l n_def n1 False that(1)[of p n] show thesis by simp
  qed
qed

section \<open>The ordering of labels\<close>

lemma lex_less_trans: "lex_less xs ys \<Longrightarrow> lex_less ys zs \<Longrightarrow> lex_less xs zs"
proof (induction xs ys arbitrary: zs rule: lex_less.induct)
  case (2 y ys)
  then show ?case by (cases zs) simp_all
next
  case (4 x xs y ys)
  then show ?case by (cases zs) auto
qed simp_all

lemma lex_less_same_prefix: "lex_less (xs @ us) (xs @ vs) = lex_less us vs"
  by (induction xs) simp_all

lemma lex_less_append:
  "lex_less xs ys \<Longrightarrow> length xs = length ys \<Longrightarrow> lex_less (xs @ us) (ys @ vs)"
  by (induction xs ys rule: lex_less.induct) auto

lemma label_less_trans: "label_less a b \<Longrightarrow> label_less b c \<Longrightarrow> label_less a c"
  unfolding label_less_def using lex_less_trans by (elim disjE conjE) auto

lemma base26_increment_length:
  "length (base26_increment p) = length p \<or> length (base26_increment p) = length p + 1"
  by (induction p rule: rev_induct) (auto simp: base26_increment_def)

lemma base26_increment_lex:
  "length (base26_increment p) = length p \<Longrightarrow> lex_less p (base26_increment p)"
proof (induction p rule: rev_induct)
  case Nil
  then show ?case by (simp add: base26_increment_def)
next
  case (snoc c xs)
  show ?case
  proof (cases "c = 90")
    case True
    with snoc.prems have len: "length (base26_increment xs) = length xs"
      by (simp add: base26_increment_snoc)
    with snoc have "lex_less xs (base26_increment xs)" by simp
    with len True show ?thesis
      by (simp add: base26_increment_snoc lex_less_append)
  next
    case False
    then show ?thesis
      by (simp add: base26_increment_snoc lex_less_same_prefix)
  qed
qed

lemma next_id_increases:
  assumes "well_formed l" and "next_id U (Some l) = Inr r"
  shows "label_less l r"
  using assms(1)
proof (cases rule: next_id_well_formed_cases[where U = U])
  case (1 p n)
  with assms(2) show ?thesis by (auto simp: label_less_def three_digits_number)
next
  case (2 p)
  with assms(2) have r: "r = base26_increment p @ three_digits 1" by simp
  from base26_increment_length[of p] base26_increment_lex[of p] 2 show ?thesis
    unfolding label_less_def r by auto
qed

lemma next_id_preserves_well_formed:
  assumes "well_formed l"
  shows "\<exists>r. next_id U (Some l) = Inr r \<and> well_formed r"
  using assms
proof (cases rule: next_id_well_formed_cases[where U = U])
  case (1 p n)
  then show ?thesis by (simp add: well_formed_three)
next
  case (2 p)
  then show ?thesis by (simp add: well_formed_three base26_increment_upper)
qed

lemma well_formed_A001: "well_formed (lit ''A001'')"
  by code_simp

lemma nth_label_well_formed: "\<exists>r. nth_label U n = Inr r \<and> well_formed r"
proof (induction n)
  case 0
  show ?case by (simp add: next_id_def well_formed_A001)
next
  case (Suc n)
  then obtain l where "nth_label U n = Inr l" "well_formed l" by blast
  with next_id_preserves_well_formed[of l U] show ?case by simp
qed

section \<open>The append log\<close>

lemma next_id_empty: "next_id U (Some []) = next_id U None"
  by (simp add: next_id_def)

lemma recover_last:
  assumes "t \<noteq> []" and "last t = ((Text L # ns) # pars) # cells"
  shows "recover t = Some L"
  using assms
  by (simp add: recover_def read_last_id_def py_last_def py_first_def firstChild_def data_def)

lemma recover_new_row: "recover (t @ [new_row l p]) = (if l = [] then None else Some l)"
  by (simp add: recover_def read_last_id_def py_last_def py_first_def firstChild_def data_def
      new_row_def P_def)

lemma next_id_recover_new_row: "next_id U (recover (t @ [new_row l p])) = next_id U (Some l)"
  by (simp add: recover_new_row next_id_empty)

lemma pending_after_startup_File:
  "pending_after_startup U (File (t # ts)) = next_id U (recover t)"
  by (simp add: pending_after_startup_def startup_def py_first_def split: sum.splits)

lemma pending_after_startup_Damaged: "pending_after_startup U Damaged = Inl BadZipFile"
  by (simp add: pending_after_startup_def startup_def)

lemma startup_pending:
  "startup U f = Inr s \<Longrightarrow> pending_after_startup U f = Inr (last_id s)"
  by (simp add: pending_after_startup_def)

lemma process_post_seen:
  "post_id p \<in> seen_posts s \<Longrightarrow> process_post U p outcome (s, f) = (Inr s, f)"
  by (simp add: process_post_def)

lemma process_post_save_fails:
  "post_id p \<notin> seen_posts s \<Longrightarrow> process_post U p (Fails e f') (s, f) = (Inl e, f')"
  by (simp add: process_post_def)

lemma process_post_new:
  assumes "post_id p \<notin> seen_posts s" and "process_post U p outcome (s, f) = (Inr s', f')"
  shows "outcome = Saved" and "next_id U (Some (last_id s)) = Inr (last_id s')"
    and "table s' = table s @ [new_row (last_id s) p]"
    and "other_tables s' = other_tables s"
    and "seen_posts s' = insert (post_id p) (seen_posts s)"
    and "f' = File (table s' # other_tables s')"
  using assms
  by (auto simp: process_post_def Let_def split: if_splits sum.splits save.splits)

lemma process_post_pending:
  assumes "process_post U p outcome (s, f) = (Inr s', f')"
    and "pending_after_startup U f = Inr (last_id s)"
  shows "pending_after_startup U f' = Inr (last_id s')"
proof (cases "post_id p \<in> seen_posts s")
  case True
  with assms show ?thesis by (simp add: process_post_seen)
next
  case False
  from process_post_new[OF False assms(1)] show ?thesis
    by (simp add: pending_after_startup_File next_id_recover_new_row)
qed

lemma process_post_seen_mono:
  assumes "process_post U p outcome (s, f) = (Inr s', f')"
  shows "seen_posts s \<subseteq> seen_posts s'" and "post_id p \<in> seen_posts s'"
  using assms
  by (auto simp: process_post_def Let_def split: if_splits sum.splits save.splits)

lemma run_Cons_Inr:
  assumes "run U ((p, outcome) # evs) (s, f) = (Inr s', f')"
  obtains s1 f1 where "process_post U p outcome (s, f) = (Inr s1, f1)"
    and "run U evs (s1, f1) = (Inr s', f')"
  using assms by (auto split: prod.splits sum.splits)

lemma run_pending:
  "run U evs (s, f) = (Inr s', f') \<Longrightarrow> pending_after_startup U f = Inr (last_id s) \<Longrightarrow>
   pending_after_startup U f' = Inr (last_id s')"
proof (induction evs arbitrary: s f)
  case Nil
  then show ?case by simp
next
  case (Cons ev evs)
  obtain p outcome where ev: "ev = (p, outcome)" by (cases ev)
  from Cons.prems(1) obtain s1 f1 where
    st: "process_post U p outcome (s, f) = (Inr s1, f1)"
    and rest: "run U evs (s1, f1) = (Inr s', f')"
    unfolding ev by (rule run_Cons_Inr)
  from process_post_pending[OF st Cons.prems(2)] rest show ?case by (rule Cons.IH[rotated])
qed

lemma run_seen_mono:
  "run U evs (s, f) = (Inr s', f') \<Longrightarrow> seen_posts s \<subseteq> seen_posts s'"
proof (induction evs arbitrary: s f)
  case Nil
  then show ?case by simp
next
  case (Cons ev evs)
  obtain p outcome where ev: "ev = (p, outcome)" by (cases ev)
  from Cons.prems(1) obtain s1 f1 where
    st: "process_post U p outcome (s, f) = (Inr s1, f1)"
    and rest: "run U evs (s1, f1) = (Inr s', f')"
    unfolding ev by (rule run_Cons_Inr)
  from process_post_seen_mono(1)[OF st] Cons.IH[OF rest] show ?case by blast
qed

lemma run_append:
  "run U evs (s, f) = (Inr s', f') \<Longrightarrow> run U (evs @ later) (s, f) = run U later (s', f')"
proof (induction evs arbitrary: s f)
  case Nil
  then show ?case by simp
next
  case (Cons ev evs)
  obtain p outcome where ev: "ev = (p, outcome)" by (cases ev)
  from Cons.prems(1) obtain s1 f1 where
    st: "process_post U p outcome (s, f) = (Inr s1, f1)"
    and rest: "run U evs (s1, f1) = (Inr s', f')"
    unfolding ev by (rule run_Cons_Inr)
  from Cons.IH[OF rest] st show ?case by (simp add: ev)
qed

lemma startup_No_file: "startup U No_file = Inr state0"
  by (simp add: startup_def next_id_def state0_def)

lemma next_id_A001: "next_id U (Some (lit ''A001'')) = Inr (lit ''A002'')"
  by code_simp

lemma process_post1:
  "process_post U post1 Saved (state0, No_file) = (Inr state1, File [table state1])"
  by (simp add: process_post_def state0_def state1_def post1_def Let_def next_id_A001)

lemma post2_new: "post_id post2 \<notin> seen_posts state1"
  by (simp add: post2_def state1_def lit_def ch_def)

section \<open>What \<^verbatim>\<open>int()\<close> accepts\<close>

lemma int_digits_split:
  "int_digits acc s = (n, rest) \<Longrightarrow>
   \<exists>u. s = u @ rest \<and> (\<forall>c\<in>set u. is_digit c \<or> c = 95)"
proof (induction acc s arbitrary: n rest rule: int_digits.induct)
  case (1 acc)
  then show ?case by simp
next
  case (2 acc c)
  then show ?case by (auto split: if_splits)
next
  case (3 acc c d cs)
  show ?case
  proof (cases "is_digit c \<or> (c = 95 \<and> is_digit d)")
    case True
    with 3 obtain u where "d # cs = u @ rest" "\<forall>c\<in>set u. is_digit c \<or> c = 95"
      by (auto split: if_splits)
    with True have "c # d # cs = (c # u) @ rest \<and> (\<forall>x\<in>set (c # u). is_digit x \<or> x = 95)"
      by auto
    then show ?thesis by blast
  next
    case False
    with 3(3) have "rest = c # d # cs" by (auto split: if_splits)
    then show ?thesis by simp
  qed
qed

lemma int_digits_bound:
  "int_digits acc s = (n, rest) \<Longrightarrow> n + 1 \<le> (acc + 1) * 10 ^ length s"
proof (induction acc s arbitrary: n rest rule: int_digits.induct)
  case (1 acc)
  then show ?case by simp
next
  case (2 acc c)
  then show ?case using digit_val_lt[of c] by (auto split: if_splits)
next
  case (3 acc c d cs)
  show ?case
  proof (cases "is_digit c")
    case True
    with 3 have "n + 1 \<le> (acc * 10 + digit_val c + 1) * 10 ^ length (d # cs)" by simp
    also have "\<dots> \<le> (acc * 10 + 10) * 10 ^ length (d # cs)"
      using digit_val_lt[OF True] by (intro mult_right_mono) simp_all
    also have "\<dots> = (acc + 1) * 10 ^ length (c # d # cs)" by (simp add: algebra_simps)
    finally show ?thesis .
  next
    case False
    show ?thesis
    proof (cases "c = 95 \<and> is_digit d")
      case True
      with False 3 have "n + 1 \<le> (acc + 1) * 10 ^ length (d # cs)" by simp
      also have "\<dots> \<le> (acc + 1) * 10 ^ length (c # d # cs)" by simp
      finally show ?thesis .
    next
      case F2: False
      with False 3(3) have "n = acc" by (auto split: if_splits)
      moreover have "(acc + 1) * 1 \<le> (acc + 1) * 10 ^ length (c # d # cs)"
        by (intro mult_left_mono) simp_all
      ultimately show ?thesis by simp
    qed
  qed
qed

lemma int_of_ascii_error: "int_of_ascii b = Inl e \<Longrightarrow> e = ValueError"
  by (auto simp: int_of_ascii_def Let_def split: if_splits prod.splits)

lemma int_of_ascii_parts:
  assumes "int_of_ascii b = Inr n"
  obtains s2 m rest where "set b \<subseteq> set s2 \<union> {c. is_space c} \<union> {43, 45}"
    and "length s2 \<le> length b" and "int_digits 0 s2 = (m, rest)"
    and "\<forall>c\<in>set rest. is_space c" and "n \<le> int m"
proof -
  define s1 where "s1 = dropWhile is_space b"
  define s2 where
    "s2 = (if s1 \<noteq> [] \<and> (hd s1 = ch CHR ''-'' \<or> hd s1 = ch CHR ''+'') then tl s1 else s1)"
  obtain m rest where id: "int_digits 0 s2 = (m, rest)" by (cases "int_digits 0 s2")
  from assms have sp: "dropWhile is_space rest = []" and n: "n \<le> int m"
    unfolding int_of_ascii_def Let_def s1_def[symmetric] s2_def[symmetric] id
    by (auto split: if_splits)
  from sp have rest: "\<forall>c\<in>set rest. is_space c" by (simp add: dropWhile_eq_Nil_conv)
  have s12: "set s1 \<subseteq> set s2 \<union> {43, 45}"
    unfolding s2_def by (cases s1) auto
  have "b = takeWhile is_space b @ s1" by (simp add: s1_def)
  then have "set b = set (takeWhile is_space b) \<union> set s1" by (metis set_append)
  moreover have "\<forall>c\<in>set (takeWhile is_space b). is_space c"
    by (auto dest: set_takeWhileD)
  ultimately have sub: "set b \<subseteq> set s2 \<union> {c. is_space c} \<union> {43, 45}"
    using s12 by auto
  have "length s1 \<le> length b" by (simp add: s1_def length_dropWhile_le)
  moreover have "length s2 \<le> length s1" by (simp add: s2_def)
  ultimately have len: "length s2 \<le> length b" by simp
  from sub len id rest n show thesis by (rule that)
qed

lemma int_of_ascii_chars:
  assumes "int_of_ascii b = Inr n"
  shows "\<forall>c\<in>set b. ascii_int_char c"
proof -
  from assms obtain s2 m rest where sub: "set b \<subseteq> set s2 \<union> {c. is_space c} \<union> {43, 45}"
    and id: "int_digits 0 s2 = (m, rest)" and rest: "\<forall>c\<in>set rest. is_space c"
    by (rule int_of_ascii_parts)
  from int_digits_split[OF id] rest have "\<forall>c\<in>set s2. ascii_int_char c"
    by (auto simp: ascii_int_char_def)
  with sub show ?thesis by (auto simp: ascii_int_char_def)
qed

lemma int_of_ascii_bound:
  assumes "int_of_ascii b = Inr n" and "length b \<le> 3"
  shows "n \<le> 999"
proof -
  from assms(1) obtain s2 m rest where len: "length s2 \<le> length b"
    and id: "int_digits 0 s2 = (m, rest)" and n: "n \<le> int m"
    by (rule int_of_ascii_parts)
  from int_digits_bound[OF id] have "m + 1 \<le> 10 ^ length s2" by simp
  also have "\<dots> \<le> (10::nat) ^ 3"
    using len assms(2) by (intro power_increasing) simp_all
  finally have "m \<le> 999" by simp
  with n show ?thesis by simp
qed

lemma ascii_of_int_char: "ascii_int_char (ascii_of U c) \<Longrightarrow> int_char U c"
  by (auto simp: ascii_of_def int_char_def ascii_int_char_def is_digit_def is_space_def
      split: if_splits option.splits)

lemma ascii_int_char_int_char: "ascii_int_char c \<Longrightarrow> c < 128 \<Longrightarrow> int_char U c"
  by (auto simp: int_char_def ascii_int_char_def is_digit_def is_space_def)

lemma py_int_error: "py_int U s = Inl e \<Longrightarrow> e = ValueError"
  unfolding py_int_def by (rule int_of_ascii_error)

lemma py_int_chars:
  assumes "py_int U s = Inr n"
  shows "\<forall>c\<in>set s. int_char U c"
proof (cases "list_all (\<lambda>c. c < 128) s")
  case True
  with assms have "\<forall>c\<in>set s. ascii_int_char c"
    using int_of_ascii_chars[of s n] by (simp add: py_int_def ascii_buffer_def)
  with True show ?thesis by (auto simp: list_all_iff intro: ascii_int_char_int_char)
next
  case False
  with assms have "\<forall>c\<in>set (map (ascii_of U) s). ascii_int_char c"
    using int_of_ascii_chars[of "map (ascii_of U) s" n] by (simp add: py_int_def ascii_buffer_def)
  then show ?thesis by (auto intro: ascii_of_int_char)
qed

lemma py_int_bound:
  assumes "py_int U s = Inr n" and "length s \<le> 3"
  shows "n \<le> 999"
proof -
  have "length (ascii_buffer U s) = length s" by (simp add: ascii_buffer_def)
  with assms show ?thesis
    unfolding py_int_def by (intro int_of_ascii_bound[of "ascii_buffer U s"]) simp_all
qed

lemma length_label_suffix: "length (label_suffix s) \<le> 3"
  by (simp add: label_suffix_def)

section \<open>Evaluations\<close>

text \<open>The database is not consulted on these inputs, so they hold for every database.\<close>

lemma next_id_999:
  assumes "\<not> prefix_overflows p"
  shows "next_id U (Some (p @ lit ''999'')) = Inr (base26_increment p @ lit ''001'')"
proof -
  have "next_id U (Some (p @ [57, 57, 57])) =
      Inr (if (999::nat) = 999 then base26_increment p @ lit ''001''
           else p @ three_digits (999 + 1))"
    by (rule next_id_digits) (simp_all add: is_digit_def digit_val_def assms)
  then show ?thesis by (simp add: lit_def ch_def)
qed

lemma next_id_A999: "next_id U (Some (lit ''A999'')) = Inr (lit ''B001'')"
proof -
  have "\<not> prefix_overflows (lit ''A'')" by (simp add: prefix_overflows_def lit_def ch_def)
  from next_id_999[OF this, of U] show ?thesis
    by (simp add: base26_increment_def lit_def ch_def)
qed

lemma next_id_Z999: "next_id U (Some (lit ''Z999'')) = Inr (lit ''AA001'')"
proof -
  have "\<not> prefix_overflows (lit ''Z'')" by (simp add: prefix_overflows_def lit_def ch_def)
  from next_id_999[OF this, of U] show ?thesis
    by (simp add: base26_increment_def lit_def ch_def)
qed

lemma next_id_AZ999: "next_id U (Some (lit ''AZ999'')) = Inr (lit ''BA001'')"
proof -
  have "\<not> prefix_overflows (lit ''AZ'')" by (simp add: prefix_overflows_def lit_def ch_def)
  from next_id_999[OF this, of U] show ?thesis
    by (simp add: base26_increment_def lit_def ch_def)
qed

lemma next_id_ZZ999: "next_id U (Some (lit ''ZZ999'')) = Inr (lit ''AAA001'')"
proof -
  have "\<not> prefix_overflows (lit ''ZZ'')" by (simp add: prefix_overflows_def lit_def ch_def)
  from next_id_999[OF this, of U] show ?thesis
    by (simp add: base26_increment_def lit_def ch_def)
qed

lemma nth_label_0: "nth_label U 0 = Inr (lit ''A001'')"
  by (simp add: next_id_def)

lemma nth_label_2: "nth_label U 2 = Inr (lit ''A003'')"
  by code_simp

lemma nth_label_3: "nth_label U 3 = Inr (lit ''A004'')"
  by code_simp

lemma next_id_malformed:
  "next_id U (Some (lit ''A000'')) = Inr (lit ''A001'')"
  "next_id U (Some (lit ''a001'')) = Inr (lit ''a002'')"
  "next_id U (Some (lit ''7'')) = Inr (lit ''008'')"
  by code_simp+

lemma next_id_A041: "next_id U (Some (lit ''A041'')) = Inr (lit ''A042'')"
  by code_simp

lemma not_int_char_x: "\<not> int_char U (ch CHR ''x'')"
  by (simp add: int_char_def ascii_int_char_def is_digit_def is_space_def ch_def)

lemma py_int_999: "py_int U (lit ''999'') = Inr 999"
  using py_int_three_digits[of 57 57 57 U]
  by (simp add: is_digit_def digit_val_def lit_def ch_def)

section \<open>Properties of the sequencer\<close>

text \<open>
  C3. \<^verbatim>\<open>next_id(None)\<close>, the call made when no label was issued before, returns exactly
  the label \<^verbatim>\<open>A001\<close>.
\<close>

theorem next_id_None: "next_id U None = Inr (lit ''A001'')"
  by (simp add: next_id_def)

text \<open>
  C4. For every well-formed label whose number is below 999, \<^verbatim>\<open>next_id\<close> returns a label
  with the same prefix whose suffix consists of exactly three decimal digits that denote
  the input's number plus one; in particular \<^verbatim>\<open>next_id("A001") = "A002"\<close>.
\<close>

theorem next_id_below_999:
  assumes "well_formed l" and "label_number l < 999"
  shows "(\<exists>r. next_id U (Some l) = Inr r \<and> label_prefix r = label_prefix l \<and>
              length (label_suffix r) = 3 \<and> list_all is_digit (label_suffix r) \<and>
              label_number r = label_number l + 1) \<and>
         next_id U (Some (lit ''A001'')) = Inr (lit ''A002'')"
proof
  from assms(1) show "\<exists>r. next_id U (Some l) = Inr r \<and> label_prefix r = label_prefix l \<and>
              length (label_suffix r) = 3 \<and> list_all is_digit (label_suffix r) \<and>
              label_number r = label_number l + 1"
  proof (cases rule: next_id_well_formed_cases[where U = U])
    case (1 p n)
    then show ?thesis by (simp add: three_digits_is_digit three_digits_number)
  next
    case (2 p)
    with assms(2) show ?thesis by simp
  qed
  show "next_id U (Some (lit ''A001'')) = Inr (lit ''A002'')" by (rule next_id_A001)
qed

text \<open>The theorem at the label \<^verbatim>\<open>B041\<close>, with the database of Python 3.11.\<close>

theorem next_id_below_999_witness:
  "well_formed (lit ''B041'') \<and> label_number (lit ''B041'') < 999 \<and>
   (\<exists>r. next_id py311_db (Some (lit ''B041'')) = Inr r \<and>
        label_prefix r = label_prefix (lit ''B041'') \<and>
        length (label_suffix r) = 3 \<and> list_all is_digit (label_suffix r) \<and>
        label_number r = label_number (lit ''B041'') + 1)"
proof -
  have h1: "well_formed (lit ''B041'')" by code_simp
  have h2: "label_number (lit ''B041'') < 999" by code_simp
  from next_id_below_999[OF h1 h2, of py311_db] h1 h2 show ?thesis by blast
qed

text \<open>
  C1. For every well-formed label whose number is 999, \<^verbatim>\<open>next_id\<close> returns the base-26
  increment of the prefix (carry from the rightmost letter, Z rolling over to A, a new
  leading A when the carry passes the leftmost letter) followed by \<^verbatim>\<open>001\<close>; the
  incremented prefix denotes the next number in bijective base 26. In particular
  \<^verbatim>\<open>A999\<close> gives \<^verbatim>\<open>B001\<close>, \<^verbatim>\<open>Z999\<close> gives \<^verbatim>\<open>AA001\<close>, \<^verbatim>\<open>AZ999\<close> gives \<^verbatim>\<open>BA001\<close> and
  \<^verbatim>\<open>ZZ999\<close> gives \<^verbatim>\<open>AAA001\<close>.
\<close>

theorem next_id_at_999:
  assumes "well_formed l" and "label_number l = 999"
  shows "next_id U (Some l) = Inr (base26_increment (label_prefix l) @ lit ''001'') \<and>
         base26_value (base26_increment (label_prefix l)) = base26_value (label_prefix l) + 1 \<and>
         next_id U (Some (lit ''A999'')) = Inr (lit ''B001'') \<and>
         next_id U (Some (lit ''Z999'')) = Inr (lit ''AA001'') \<and>
         next_id U (Some (lit ''AZ999'')) = Inr (lit ''BA001'') \<and>
         next_id U (Some (lit ''ZZ999'')) = Inr (lit ''AAA001'')"
proof (intro conjI)
  from assms(1)
  show "next_id U (Some l) = Inr (base26_increment (label_prefix l) @ lit ''001'')"
  proof (cases rule: next_id_well_formed_cases[where U = U])
    case (1 p n)
    with assms(2) show ?thesis by simp
  next
    case (2 p)
    then show ?thesis by (simp add: three_digits_Suc0)
  qed
  from assms(1) have "list_all is_upper (label_prefix l)" by (simp add: well_formed_def)
  then show "base26_value (base26_increment (label_prefix l)) = base26_value (label_prefix l) + 1"
    by (rule base26_increment_value)
  show "next_id U (Some (lit ''A999'')) = Inr (lit ''B001'')" by (rule next_id_A999)
  show "next_id U (Some (lit ''Z999'')) = Inr (lit ''AA001'')" by (rule next_id_Z999)
  show "next_id U (Some (lit ''AZ999'')) = Inr (lit ''BA001'')" by (rule next_id_AZ999)
  show "next_id U (Some (lit ''ZZ999'')) = Inr (lit ''AAA001'')" by (rule next_id_ZZ999)
qed

text \<open>The theorem at the label \<^verbatim>\<open>AZZ999\<close>, with the database of Python 3.11.\<close>

theorem next_id_at_999_witness:
  "well_formed (lit ''AZZ999'') \<and> label_number (lit ''AZZ999'') = 999 \<and>
   next_id py311_db (Some (lit ''AZZ999'')) = Inr (lit ''BAA001'') \<and>
   base26_value (lit ''BAA'') = base26_value (lit ''AZZ'') + 1"
proof -
  have h1: "well_formed (lit ''AZZ999'')" by code_simp
  have h2: "label_number (lit ''AZZ999'') = 999" by code_simp
  have p: "label_prefix (lit ''AZZ999'') = lit ''AZZ''" by code_simp
  have i: "base26_increment (lit ''AZZ'') = lit ''BAA''" by code_simp
  have j: "lit ''BAA'' @ lit ''001'' = lit ''BAA001''" by code_simp
  from next_id_at_999[OF h1 h2, of py311_db] h1 h2 show ?thesis by (simp add: p i j)
qed

text \<open>
  C10. \<^verbatim>\<open>next_id\<close> maps every well-formed label to a well-formed label (it does not
  raise on it), so every label produced by iterating \<^verbatim>\<open>next_id\<close> from \<^verbatim>\<open>None\<close> is
  well-formed.
\<close>

theorem next_id_well_formed_closed:
  "(well_formed l \<longrightarrow> (\<exists>r. next_id U (Some l) = Inr r \<and> well_formed r)) \<and>
   (\<exists>r. nth_label U n = Inr r \<and> well_formed r)"
  using next_id_preserves_well_formed[of l U] nth_label_well_formed[of U n] by blast

text \<open>
  The theorem at the label \<^verbatim>\<open>ZZ999\<close> and at the fourth label of the sequence, with the
  database of Python 3.11.
\<close>

theorem next_id_well_formed_closed_witness:
  "well_formed (lit ''ZZ999'') \<and> next_id py311_db (Some (lit ''ZZ999'')) = Inr (lit ''AAA001'') \<and>
   well_formed (lit ''AAA001'') \<and> nth_label py311_db 3 = Inr (lit ''A004'') \<and>
   well_formed (lit ''A004'')"
proof -
  have h: "well_formed (lit ''ZZ999'')" by code_simp
  have n: "next_id py311_db (Some (lit ''ZZ999'')) = Inr (lit ''AAA001'')" by (rule next_id_ZZ999)
  have m: "nth_label py311_db 3 = Inr (lit ''A004'')" by (rule nth_label_3)
  from next_id_well_formed_closed[of "lit ''ZZ999''" py311_db 3] h n m show ?thesis by simp
qed

text \<open>
  C2. In the sequence of labels produced by iterating \<^verbatim>\<open>next_id\<close> from \<^verbatim>\<open>None\<close>, every
  label is defined and is strictly greater than every earlier one in the ordering of
  labels (prefix length, then prefix lexicographically, then number).
\<close>

theorem nth_label_increasing:
  assumes "i < j"
  shows "\<exists>a b. nth_label U i = Inr a \<and> nth_label U j = Inr b \<and> label_less a b"
  using assms
proof (induction j)
  case 0
  then show ?case by simp
next
  case (Suc j)
  obtain b where b: "nth_label U j = Inr b" "well_formed b"
    using nth_label_well_formed[of U j] by blast
  obtain c where c: "nth_label U (Suc j) = Inr c"
    using nth_label_well_formed[of U "Suc j"] by blast
  with b have step: "label_less b c" by (auto intro: next_id_increases)
  show ?case
  proof (cases "i = j")
    case True
    with b c step show ?thesis by simp
  next
    case False
    with Suc.prems have "i < j" by simp
    with Suc.IH obtain a where "nth_label U i = Inr a" "label_less a b" using b by auto
    with c step show ?thesis by (auto intro: label_less_trans)
  qed
qed

text \<open>
  The theorem at the first and the third label of the sequence, with the database of
  Python 3.11.
\<close>

theorem nth_label_increasing_witness:
  "(0::nat) < 2 \<and> nth_label py311_db 0 = Inr (lit ''A001'') \<and>
   nth_label py311_db 2 = Inr (lit ''A003'') \<and> label_less (lit ''A001'') (lit ''A003'')"
proof -
  have h: "(0::nat) < 2" by simp
  have a: "nth_label py311_db 0 = Inr (lit ''A001'')" by (rule nth_label_0)
  have b: "nth_label py311_db 2 = Inr (lit ''A003'')" by (rule nth_label_2)
  from nth_label_increasing[OF h, of py311_db] a b show ?thesis by simp
qed

text \<open>
  C8, as the code has it. \<^verbatim>\<open>next_id\<close> makes no well-formedness check. On a non-empty
  input it raises, always \<^verbatim>\<open>ValueError\<close>, in exactly two cases: \<^verbatim>\<open>int()\<close> rejects the last
  three characters (the whole input when it is shorter), which is so in particular
  whenever one of these characters is not a decimal digit, a sign, an underscore or
  white space; or the last three characters denote 999 and the rightmost character of
  the prefix other than Z is the last code point, so that \<^verbatim>\<open>chr(0x110000)\<close> raises in
  line 97. On every other input it returns a string.
\<close>

theorem next_id_rejects:
  "(s \<noteq> [] \<and> (\<exists>c\<in>set (label_suffix s). \<not> int_char U c) \<longrightarrow>
      next_id U (Some s) = Inl ValueError) \<and>
   ((\<exists>e. next_id U (Some s) = Inl e) =
      (s \<noteq> [] \<and>
       (py_int U (label_suffix s) = Inl ValueError \<or>
        (py_int U (label_suffix s) = Inr 999 \<and> prefix_overflows (label_prefix s))))) \<and>
   (next_id U (Some s) = Inl e \<longrightarrow> e = ValueError)"
proof (cases "s = []")
  case True
  then show ?thesis by (simp add: next_id_def)
next
  case ne: False
  show ?thesis
  proof (cases "py_int U (label_suffix s)")
    case (Inl e')
    then have e': "e' = ValueError" by (rule py_int_error)
    from Inl ne show ?thesis by (auto simp: next_id_nonempty e')
  next
    case (Inr k)
    from py_int_bound[OF Inr length_label_suffix] have k: "k \<le> 999" .
    from py_int_chars[OF Inr] have chars: "\<forall>c\<in>set (label_suffix s). int_char U c" .
    from Inr ne k chars show ?thesis by (auto simp: next_id_nonempty)
  qed
qed

text \<open>
  The theorem at the input \<^verbatim>\<open>AB1x\<close> and at the input that consists of the last code point
  and \<^verbatim>\<open>999\<close>, with the database of Python 3.11.
\<close>

theorem next_id_rejects_witness:
  "lit ''AB1x'' \<noteq> [] \<and> ch CHR ''x'' \<in> set (label_suffix (lit ''AB1x'')) \<and>
   \<not> int_char py311_db (ch CHR ''x'') \<and>
   next_id py311_db (Some (lit ''AB1x'')) = Inl ValueError \<and>
   py_int py311_db (label_suffix (0x10FFFF # lit ''999'')) = Inr 999 \<and>
   prefix_overflows (label_prefix (0x10FFFF # lit ''999'')) \<and>
   next_id py311_db (Some (0x10FFFF # lit ''999'')) = Inl ValueError"
proof -
  have h0: "lit ''AB1x'' \<noteq> []" by (simp add: lit_def)
  have h1: "ch CHR ''x'' \<in> set (label_suffix (lit ''AB1x''))"
    by (simp add: label_suffix_def lit_def)
  have h2: "\<not> int_char py311_db (ch CHR ''x'')" by (rule not_int_char_x)
  have "label_suffix (0x10FFFF # lit ''999'') = lit ''999''"
    by (simp add: label_suffix_def lit_def)
  then have h3: "py_int py311_db (label_suffix (0x10FFFF # lit ''999'')) = Inr 999"
    by (simp add: py_int_999)
  have h4: "prefix_overflows (label_prefix (0x10FFFF # lit ''999''))"
    by (simp add: prefix_overflows_def label_prefix_def lit_def)
  have h5: "0x10FFFF # lit ''999'' \<noteq> []" by simp
  from next_id_rejects[of "lit ''AB1x''" py311_db ValueError] h0 h1 h2
  have a: "next_id py311_db (Some (lit ''AB1x'')) = Inl ValueError" by blast
  from next_id_rejects[of "0x10FFFF # lit ''999''" py311_db] h3 h4 h5
  obtain e where e: "next_id py311_db (Some (0x10FFFF # lit ''999'')) = Inl e" by blast
  with next_id_rejects[of "0x10FFFF # lit ''999''" py311_db e]
  have b: "next_id py311_db (Some (0x10FFFF # lit ''999'')) = Inl ValueError" by blast
  from h0 h1 h2 h3 h4 a b show ?thesis by blast
qed

text \<open>
  C8, as the specification states it (every input that is not a well-formed label is
  rejected), does not hold: \<^verbatim>\<open>A000\<close> (number out of range), \<^verbatim>\<open>a001\<close> (lower-case prefix)
  and \<^verbatim>\<open>7\<close> (fewer than three digits) are not well-formed, and \<^verbatim>\<open>next_id\<close> returns a
  string for each of them.
\<close>

theorem next_id_accepts_malformed:
  "\<not> well_formed (lit ''A000'') \<and> next_id py311_db (Some (lit ''A000'')) = Inr (lit ''A001'') \<and>
   \<not> well_formed (lit ''a001'') \<and> next_id py311_db (Some (lit ''a001'')) = Inr (lit ''a002'') \<and>
   \<not> well_formed (lit ''7'') \<and> next_id py311_db (Some (lit ''7'')) = Inr (lit ''008'')"
proof -
  have "\<not> well_formed (lit ''A000'')" "\<not> well_formed (lit ''a001'')" "\<not> well_formed (lit ''7'')"
    by code_simp+
  then show ?thesis by (simp add: next_id_malformed)
qed

section \<open>Properties of the append log\<close>

text \<open>
  C5. When the file exists and the first cell of the last row of its table holds the
  text \<open>L\<close>, the label held after the start is \<^verbatim>\<open>next_id(L)\<close> (and the start fails exactly
  when \<^verbatim>\<open>next_id(L)\<close> raises). This is the label a process that did not restart holds:
  after a row with label \<open>last_id s\<close> is appended and saved, the process holds
  \<^verbatim>\<open>next_id\<close> of that label, and a start on the file it wrote gives the same label.
\<close>

theorem startup_resumes:
  "(t \<noteq> [] \<and> last t = ((Text L # ns) # pars) # cells \<longrightarrow>
      pending_after_startup U (File (t # ts)) = next_id U (Some L)) \<and>
   (post_id p \<notin> seen_posts s \<and> process_post U p outcome (s, f) = (Inr s', f') \<longrightarrow>
      next_id U (Some (last_id s)) = Inr (last_id s') \<and>
      pending_after_startup U f' = Inr (last_id s'))"
proof (intro conjI impI)
  assume "t \<noteq> [] \<and> last t = ((Text L # ns) # pars) # cells"
  then have "recover t = Some L" by (auto intro: recover_last)
  then show "pending_after_startup U (File (t # ts)) = next_id U (Some L)"
    by (simp add: pending_after_startup_File)
next
  assume a: "post_id p \<notin> seen_posts s \<and> process_post U p outcome (s, f) = (Inr s', f')"
  then have n: "post_id p \<notin> seen_posts s"
    and st: "process_post U p outcome (s, f) = (Inr s', f')" by simp_all
  from process_post_new[OF n st] show "next_id U (Some (last_id s)) = Inr (last_id s')"
    by simp
  from process_post_new[OF n st] show "pending_after_startup U f' = Inr (last_id s')"
    by (simp add: pending_after_startup_File next_id_recover_new_row)
qed

text \<open>
  The theorem at a file with one data row labelled \<^verbatim>\<open>A041\<close>, and at the first append of
  a run, with the database of Python 3.11.
\<close>

theorem startup_resumes_witness:
  "[header, new_row (lit ''A041'') post1] \<noteq> [] \<and>
   last [header, new_row (lit ''A041'') post1] =
     ((Text (lit ''A041'') # []) # []) # tl (new_row (lit ''A041'') post1) \<and>
   pending_after_startup py311_db (File ([header, new_row (lit ''A041'') post1] # [])) =
     Inr (lit ''A042'') \<and>
   post_id post1 \<notin> seen_posts state0 \<and>
   process_post py311_db post1 Saved (state0, No_file) = (Inr state1, File [table state1]) \<and>
   next_id py311_db (Some (last_id state0)) = Inr (last_id state1) \<and>
   pending_after_startup py311_db (File [table state1]) = Inr (last_id state1)"
proof -
  have h1: "[header, new_row (lit ''A041'') post1] \<noteq> []" by simp
  have h2: "last [header, new_row (lit ''A041'') post1] =
      ((Text (lit ''A041'') # []) # []) # tl (new_row (lit ''A041'') post1)"
    by (simp add: new_row_def P_def lit_def)
  have n: "next_id py311_db (Some (lit ''A041'')) = Inr (lit ''A042'')" by (rule next_id_A041)
  have h3: "post_id post1 \<notin> seen_posts state0" by (simp add: state0_def)
  note h4 = process_post1[of py311_db]
  from startup_resumes[of "[header, new_row (lit ''A041'') post1]" "lit ''A041''" "[]" "[]"
      "tl (new_row (lit ''A041'') post1)" py311_db "[]" post1 state0 Saved No_file state1
      "File [table state1]"]
    h1 h2 h3 h4 n
  show ?thesis by simp
qed

text \<open>
  C6, evaluated on the code. For a file whose table holds only the header row, the last
  row is the header row, so the text read is \<^verbatim>\<open>ID\<close>; nothing raises inside the \<^verbatim>\<open>try\<close>,
  and \<^verbatim>\<open>next_id("ID")\<close> in line 109 raises \<^verbatim>\<open>ValueError\<close>, which ends the process. The
  start does not resume with \<^verbatim>\<open>A001\<close>.
\<close>

theorem startup_header_only:
  "recover [header] = Some (lit ''ID'') \<and> next_id U (Some (lit ''ID'')) = Inl ValueError \<and>
   startup U (File [[header]]) = Inl ValueError"
  by code_simp

text \<open>
  C7, as the code has it. Let a process start on the file \<open>f0\<close> and save the rows of the
  submissions \<open>evs\<close>, and let the save raise \<open>e\<close> for the next new submission \<open>p\<close>, leaving
  the file \<open>f'\<close>. Then the exception leaves the loop: it ends the run, whatever
  submissions would follow, and the label held by the process is not advanced. What the
  next start recovers depends on the file that the failed save left, which the code does
  not protect. On the file as the last successful save wrote it, the next start holds
  the label the process held when the save failed, which is \<^verbatim>\<open>next_id\<close> of the label
  recovered from the last row of that file: the row that was not saved consumed no
  label. On a damaged file, the next start ends with the exception of \<^verbatim>\<open>load\<close> and
  recovers no label.
\<close>

theorem save_failure_ends_run:
  assumes "startup U f0 = Inr s0" and "run U evs (s0, f0) = (Inr s, f)"
    and "post_id p \<notin> seen_posts s"
  shows "process_post U p (Fails e f') (s, f) = (Inl e, f') \<and>
         run U (evs @ (p, Fails e f') # later) (s0, f0) = (Inl e, f') \<and>
         (f' = f \<longrightarrow> pending_after_startup U f' = Inr (last_id s) \<and>
            (\<forall>t ts. f = File (t # ts) \<longrightarrow> next_id U (recover t) = Inr (last_id s))) \<and>
         (f' = Damaged \<longrightarrow> pending_after_startup U f' = Inl BadZipFile)"
proof -
  have fail: "process_post U p (Fails e f') (s, f) = (Inl e, f')"
    using assms(3) by (rule process_post_save_fails)
  have "run U (evs @ (p, Fails e f') # later) (s0, f0) = run U ((p, Fails e f') # later) (s, f)"
    using assms(2) by (rule run_append)
  with fail have abort: "run U (evs @ (p, Fails e f') # later) (s0, f0) = (Inl e, f')"
    by simp
  have "pending_after_startup U f0 = Inr (last_id s0)"
    using assms(1) by (rule startup_pending)
  with assms(2) have pend: "pending_after_startup U f = Inr (last_id s)"
    by (rule run_pending)
  then have "\<forall>t ts. f = File (t # ts) \<longrightarrow> next_id U (recover t) = Inr (last_id s)"
    by (auto simp: pending_after_startup_File)
  with fail abort pend show ?thesis by (simp add: pending_after_startup_Damaged)
qed

text \<open>
  The theorem at the scenario of the specification, with the database of Python 3.11: no
  file at the start, the first submission saved, the save of the second fails. When it
  leaves the file of the first save, the restart holds \<^verbatim>\<open>A002\<close>; when it leaves a damaged
  file, the restart ends with the exception of \<^verbatim>\<open>load\<close>.
\<close>

theorem save_failure_ends_run_witness:
  "startup py311_db No_file = Inr state0 \<and>
   run py311_db [(post1, Saved)] (state0, No_file) = (Inr state1, File [table state1]) \<and>
   post_id post2 \<notin> seen_posts state1 \<and>
   run py311_db ([(post1, Saved)] @ (post2, Fails OSError (File [table state1])) # [])
     (state0, No_file) = (Inl OSError, File [table state1]) \<and>
   pending_after_startup py311_db (File [table state1]) = Inr (lit ''A002'') \<and>
   next_id py311_db (recover (table state1)) = Inr (lit ''A002'') \<and>
   run py311_db ([(post1, Saved)] @ (post2, Fails OSError Damaged) # []) (state0, No_file) =
     (Inl OSError, Damaged) \<and>
   pending_after_startup py311_db Damaged = Inl BadZipFile"
proof -
  note h1 = startup_No_file[of py311_db]
  have h2: "run py311_db [(post1, Saved)] (state0, No_file) = (Inr state1, File [table state1])"
    by (simp add: process_post1)
  note h3 = post2_new
  have l: "last_id state1 = lit ''A002''" by (simp add: state1_def)
  from save_failure_ends_run[OF h1 h2 h3, of OSError "File [table state1]" "[]"] l
  have a: "run py311_db ([(post1, Saved)] @ (post2, Fails OSError (File [table state1])) # [])
       (state0, No_file) = (Inl OSError, File [table state1]) \<and>
     pending_after_startup py311_db (File [table state1]) = Inr (lit ''A002'') \<and>
     next_id py311_db (recover (table state1)) = Inr (lit ''A002'')"
    by simp
  from save_failure_ends_run[OF h1 h2 h3, of OSError Damaged "[]"]
  have b: "run py311_db ([(post1, Saved)] @ (post2, Fails OSError Damaged) # [])
       (state0, No_file) = (Inl OSError, Damaged) \<and>
     pending_after_startup py311_db Damaged = Inl BadZipFile"
    by simp
  from h1 h2 h3 a b show ?thesis by blast
qed

text \<open>
  C7, as the specification states it (after a failed save the next start recovers
  \<^verbatim>\<open>next_id\<close> of the label of the last row that was saved), does not hold. In the scenario
  of the specification the save of the second submission fails while writing and leaves a
  damaged file: the run ends with the exception, and the restart ends with the exception
  of \<^verbatim>\<open>load\<close> instead of holding \<^verbatim>\<open>A002\<close>.
\<close>

theorem damaged_file_stops_restart:
  "run py311_db [(post1, Saved), (post2, Fails OSError Damaged)] (state0, No_file) =
     (Inl OSError, Damaged) \<and>
   pending_after_startup py311_db Damaged = Inl BadZipFile \<and>
   pending_after_startup py311_db Damaged \<noteq> Inr (lit ''A002'')"
  using post2_new
  by (simp add: process_post1 process_post_save_fails pending_after_startup_Damaged)

text \<open>
  C9. After a submission was processed, a later delivery in the same run of a submission
  with the same key changes nothing: no row, no save (the file and the outcome do not
  depend on what a save would do), no label consumed, no exception. Two deliveries of a
  new key append exactly one row.
\<close>

theorem duplicate_skipped:
  assumes "process_post U p1 ok1 (s, f) = (Inr s1, f1)" and "run U mid (s1, f1) = (Inr s2, f2)"
    and "post_id p2 = post_id p1"
  shows "process_post U p2 ok2 (s2, f2) = (Inr s2, f2) \<and>
         run U ((p1, ok1) # mid @ [(p2, ok2)]) (s, f) = (Inr s2, f2) \<and>
         (post_id p1 \<notin> seen_posts s \<longrightarrow>
            table s1 = table s @ [new_row (last_id s) p1] \<and>
            run U [(p1, ok1), (p2, ok2)] (s, f) = (Inr s1, f1))"
proof -
  from process_post_seen_mono(2)[OF assms(1)] assms(3) have in1: "post_id p2 \<in> seen_posts s1"
    by simp
  with run_seen_mono[OF assms(2)] have "post_id p2 \<in> seen_posts s2" by blast
  then have skip: "process_post U p2 ok2 (s2, f2) = (Inr s2, f2)"
    by (rule process_post_seen)
  have "run U (mid @ [(p2, ok2)]) (s1, f1) = run U [(p2, ok2)] (s2, f2)"
    using assms(2) by (rule run_append)
  with skip assms(1) have all: "run U ((p1, ok1) # mid @ [(p2, ok2)]) (s, f) = (Inr s2, f2)"
    by simp
  from in1 have "process_post U p2 ok2 (s1, f1) = (Inr s1, f1)"
    by (rule process_post_seen)
  with assms(1) have two: "run U [(p1, ok1), (p2, ok2)] (s, f) = (Inr s1, f1)"
    by simp
  have "post_id p1 \<notin> seen_posts s \<longrightarrow> table s1 = table s @ [new_row (last_id s) p1]"
    using process_post_new(3)[OF _ assms(1)] by blast
  with skip all two show ?thesis by simp
qed

text \<open>
  The theorem at the first submission of a run, delivered twice, with the database of
  Python 3.11.
\<close>

theorem duplicate_skipped_witness:
  "process_post py311_db post1 Saved (state0, No_file) = (Inr state1, File [table state1]) \<and>
   run py311_db [] (state1, File [table state1]) = (Inr state1, File [table state1]) \<and>
   post_id post1_again = post_id post1 \<and>
   process_post py311_db post1_again Saved (state1, File [table state1]) =
     (Inr state1, File [table state1]) \<and>
   post_id post1 \<notin> seen_posts state0 \<and>
   table state1 = table state0 @ [new_row (last_id state0) post1] \<and>
   run py311_db [(post1, Saved), (post1_again, Saved)] (state0, No_file) =
     (Inr state1, File [table state1])"
proof -
  note h1 = process_post1[of py311_db]
  have h2: "run py311_db [] (state1, File [table state1]) = (Inr state1, File [table state1])"
    by simp
  have h3: "post_id post1_again = post_id post1" by (simp add: post1_again_def post1_def)
  have h4: "post_id post1 \<notin> seen_posts state0" by (simp add: state0_def)
  from duplicate_skipped[OF h1 h2 h3, of Saved] h1 h2 h3 h4 show ?thesis by blast
qed

end
